theory Spec2Isabelle
  imports Complex_Main "HOL-Library.AList"
begin

section \<open>Snake grid simulator (src/env.py)\<close>

text \<open>
  The simulator class \<^verbatim>\<open>SnakeEnv\<close> is embedded with explicit state passing: every
  method takes the object's fields as a record and returns the updated record together
  with its result. A Python exception is a value \<open>Inl err\<close>; a normal return is \<open>Inr\<close>.

  The seeded generator \<^verbatim>\<open>self.rng\<close> is a stream of natural numbers: one
  element is consumed by each \<^verbatim>\<open>rng.choice\<close>, and the chosen index is that number
  modulo the length of the sequence. Every stream stands for some seed, so a statement
  for all streams covers every outcome of the random choice.

  Rendering is switched off (\<^verbatim>\<open>render=False\<close>, the default), so
  \<^verbatim>\<open>_maybe_render\<close> returns at once and the pygame members play no role.
  Python floats are idealised as real numbers.
\<close>

datatype error = IndexError | ValueError | FileNotFoundError

record env =
  n :: int
  rng :: "nat \<Rightarrow> nat"
  dir :: int
  snake :: "(int \<times> int) list"
  food :: "int \<times> int"
  steps :: int
  prev_dist :: int

type_synonym encoded = "int \<times> int \<times> int \<times> int \<times> int \<times> int"

type_synonym info = "(string \<times> bool) list"

type_synonym outcome = "encoded \<times> real \<times> bool \<times> info"

text \<open>Directions U, R, D, L; the y axis points down.\<close>

definition DIRS :: "(int \<times> int) list" where
  "DIRS = [(0, -1), (1, 0), (0, 1), (-1, 0)]"

text \<open>Python subscription \<^verbatim>\<open>xs[i]\<close> of a list or a one-dimensional array: a
  negative index counts from the end, an index outside the sequence raises.\<close>

definition norm_index :: "nat \<Rightarrow> int \<Rightarrow> error + nat" where
  "norm_index len i =
     (if 0 \<le> i \<and> i < int len then Inr (nat i)
      else if i < 0 \<and> - int len \<le> i then Inr (nat (int len + i))
      else Inl IndexError)"

definition py_index :: "'a list \<Rightarrow> int \<Rightarrow> error + 'a" where
  "py_index xs i =
     (case norm_index (length xs) i of Inl err \<Rightarrow> Inl err | Inr j \<Rightarrow> Inr (xs ! j))"

text \<open>\<^verbatim>\<open>choice(seq)\<close> of a generator whose next draw is \<open>r\<close>: IndexError on an
  empty sequence, otherwise the element at a position below the length.\<close>

definition choice :: "nat \<Rightarrow> 'a list \<Rightarrow> error + 'a" where
  "choice r xs = (if xs = [] then Inl IndexError else Inr (xs ! (r mod length xs)))"

text \<open>\<^verbatim>\<open>__init__\<close>: the fields before the first reset.\<close>

definition init_env :: "int \<Rightarrow> (nat \<Rightarrow> nat) \<Rightarrow> env" where
  "init_env sz seed =
     \<lparr>n = sz, rng = seed, dir = 1, snake = [], food = (0, 0), steps = 0, prev_dist = 0\<rparr>"

definition manhattan :: "int \<times> int \<Rightarrow> int \<times> int \<Rightarrow> int" where
  "manhattan a b = \<bar>fst a - fst b\<bar> + \<bar>snd a - snd b\<bar>"

definition out_of_bounds :: "env \<Rightarrow> int \<times> int \<Rightarrow> bool" where
  "out_of_bounds e pos =
     (case pos of (x, y) \<Rightarrow> x < 0 \<or> x \<ge> n e \<or> y < 0 \<or> y \<ge> n e)"

definition turn :: "int \<Rightarrow> env \<Rightarrow> env" where
  "turn action e =
     (if action = 0 then e\<lparr>dir := (dir e - 1) mod 4\<rparr>
      else if action = 2 then e\<lparr>dir := (dir e + 1) mod 4\<rparr>
      else e)"

definition danger :: "env \<Rightarrow> int \<Rightarrow> error + int" where
  "danger e rel =
     (let d = (dir e + rel) mod 4 in
      case snake e of
        [] \<Rightarrow> Inl IndexError
      | (hx, hy) # _ \<Rightarrow>
          (case py_index DIRS d of
             Inl err \<Rightarrow> Inl err
           | Inr (dx, dy) \<Rightarrow>
               (let nx = hx + dx; ny = hy + dy in
                Inr (if out_of_bounds e (nx, ny) \<or> (nx, ny) \<in> set (butlast (snake e))
                     then 1 else 0))))"

definition state :: "env \<Rightarrow> error + encoded" where
  "state e =
     (case snake e of
        [] \<Rightarrow> Inl IndexError
      | (hx, hy) # _ \<Rightarrow>
          (case food e of (fx, fy) \<Rightarrow>
             (let sdx = (if fx = hx then 0 else if fx > hx then 1 else -1);
                  sdy = (if fy = hy then 0 else if fy > hy then 1 else -1)
              in case danger e (-1) of
                   Inl err \<Rightarrow> Inl err
                 | Inr dl \<Rightarrow>
                     (case danger e 0 of
                        Inl err \<Rightarrow> Inl err
                      | Inr df \<Rightarrow>
                          (case danger e 1 of
                             Inl err \<Rightarrow> Inl err
                           | Inr dr \<Rightarrow> Inr (dl, df, dr, sdx, sdy, dir e))))))"

text \<open>The cells of the grid, \<^verbatim>\<open>(x, y) for x in range(n) for y in range(n)\<close>.\<close>

definition grid_cells :: "int \<Rightarrow> (int \<times> int) list" where
  "grid_cells sz = List.product (map int [0..<nat sz]) (map int [0..<nat sz])"

definition free_cells :: "env \<Rightarrow> (int \<times> int) list" where
  "free_cells e = filter (\<lambda>c. c \<notin> set (snake e)) (grid_cells (n e))"

text \<open>The set difference is listed in grid order; the order of \<^verbatim>\<open>list(cells)\<close>
  is immaterial, since the draw is arbitrary. The stream advances by one draw.\<close>

definition place_food :: "env \<Rightarrow> error + env" where
  "place_food e =
     (let cells = free_cells e in
      case choice (rng e 0) cells of
        Inl err \<Rightarrow> Inl err
      | Inr c \<Rightarrow> Inr (e\<lparr>food := c, rng := (\<lambda>i. rng e (Suc i))\<rparr>))"

definition reset :: "env \<Rightarrow> error + env \<times> encoded" where
  "reset e =
     (let mid = n e div 2;
          e1 = e\<lparr>dir := 1, snake := [(mid, mid), (mid - 1, mid)]\<rparr>
      in case place_food e1 of
           Inl err \<Rightarrow> Inl err
         | Inr e2 \<Rightarrow>
             (let e3 = e2\<lparr>steps := 0\<rparr>;
                  e4 = e3\<lparr>prev_dist := manhattan (hd (snake e3)) (food e3)\<rparr>
              in case state e4 of
                   Inl err \<Rightarrow> Inl err
                 | Inr s \<Rightarrow> Inr (e4, s)))"

text \<open>The two death returns of \<^verbatim>\<open>step\<close> are the same statement.\<close>

definition died :: "env \<Rightarrow> error + env \<times> outcome" where
  "died e = (case state e of Inl err \<Rightarrow> Inl err | Inr s \<Rightarrow> Inr (e, (s, -10, True, [])))"

text \<open>The part of \<^verbatim>\<open>step\<close> after the two collision checks: the move is committed,
  the reward is shaped and the step counter advances.\<close>

definition commit :: "env \<Rightarrow> int \<times> int \<Rightarrow> bool \<Rightarrow> error + env \<times> outcome" where
  "commit e1 new_head will_eat =
     (let e2 = e1\<lparr>snake := new_head # snake e1\<rparr>;
          reward = (-0.01 :: real);
          moved = (if will_eat then place_food e2
                   else Inr (e2\<lparr>snake := butlast (snake e2)\<rparr>))
      in case moved of
           Inl err \<Rightarrow> Inl err
         | Inr e3 \<Rightarrow>
             (let reward = (if will_eat then reward + 10 else reward);
                  dist = manhattan new_head (food e3);
                  reward = (if dist < prev_dist e3 then reward + 0.05
                            else if dist > prev_dist e3 then reward - 0.02
                            else reward);
                  e4 = e3\<lparr>prev_dist := dist\<rparr>;
                  e5 = e4\<lparr>steps := steps e4 + 1\<rparr>
              in case state e5 of
                   Inl err \<Rightarrow> Inl err
                 | Inr s \<Rightarrow> Inr (e5, (s, reward, False, [(''ate'', will_eat)]))))"

definition step :: "int \<Rightarrow> env \<Rightarrow> error + env \<times> outcome" where
  "step action e =
     (let e1 = turn action e in
      case py_index DIRS (dir e1) of
        Inl err \<Rightarrow> Inl err
      | Inr (dx, dy) \<Rightarrow>
          (case snake e1 of
             [] \<Rightarrow> Inl IndexError
           | (hx, hy) # _ \<Rightarrow>
               (let new_head = (hx + dx, hy + dy) in
                if out_of_bounds e1 new_head then died e1
                else
                  (let will_eat = (new_head = food e1);
                       body = (if will_eat then snake e1 else butlast (snake e1))
                   in if new_head \<in> set body then died e1
                      else commit e1 new_head will_eat))))"

section \<open>Q-value table (src/agent.py)\<close>

text \<open>
  \<^verbatim>\<open>QTable.Q\<close> is a \<^verbatim>\<open>defaultdict\<close> from state keys to arrays. It is an
  association list in insertion order, as a Python dictionary is; a value vector is a
  list of reals. Reading a missing key through \<^verbatim>\<open>Q[k]\<close> stores and returns
  \<^verbatim>\<open>np.zeros(actions)\<close>; the membership test \<^verbatim>\<open>k in Q\<close> stores nothing.
  The draws of the global \<^verbatim>\<open>random\<close> module are arguments: \<open>u\<close> is the value
  of \<^verbatim>\<open>random.random()\<close> and \<open>r\<close> the draw behind \<^verbatim>\<open>randrange\<close> or
  \<^verbatim>\<open>choice\<close>.
\<close>

record 'k QTable =
  actions :: int
  Q :: "('k \<times> real list) list"


definition np_zeros :: "int \<Rightarrow> error + real list" where
  "np_zeros len = (if len < 0 then Inl ValueError else Inr (replicate (nat len) 0))"

text \<open>\<^verbatim>\<open>np.max\<close> and \<^verbatim>\<open>np.argmax\<close> raise ValueError on an empty array;
  \<^verbatim>\<open>argmax\<close> returns the first position of the maximum.\<close>

definition np_max :: "real list \<Rightarrow> error + real" where
  "np_max q = (case q of [] \<Rightarrow> Inl ValueError | x # xs \<Rightarrow> Inr (fold max xs x))"

definition max_positions :: "real list \<Rightarrow> real \<Rightarrow> nat list" where
  "max_positions q m = map fst (filter (\<lambda>(i, v). v = m) (enumerate 0 q))"

definition np_argmax :: "real list \<Rightarrow> error + int" where
  "np_argmax q =
     (case np_max q of Inl err \<Rightarrow> Inl err | Inr m \<Rightarrow> Inr (int (hd (max_positions q m))))"

definition contains :: "'k QTable \<Rightarrow> 'k \<Rightarrow> bool" where
  "contains T k \<longleftrightarrow> map_of (Q T) k \<noteq> None"

definition getitem :: "'k QTable \<Rightarrow> 'k \<Rightarrow> error + 'k QTable \<times> real list" where
  "getitem T k =
     (case map_of (Q T) k of
        Some v \<Rightarrow> Inr (T, v)
      | None \<Rightarrow>
          (case np_zeros (actions T) of
             Inl err \<Rightarrow> Inl err
           | Inr v \<Rightarrow> Inr (T\<lparr>Q := AList.update k v (Q T)\<rparr>, v)))"

definition randrange :: "nat \<Rightarrow> int \<Rightarrow> error + int" where
  "randrange r stop = (if stop \<le> 0 then Inl ValueError else Inr (int r mod stop))"

definition act :: "'k QTable \<Rightarrow> 'k \<Rightarrow> real \<Rightarrow> real \<Rightarrow> nat \<Rightarrow> error + 'k QTable \<times> int" where
  "act T st eps u r =
     (if u < eps then
        (case randrange r (actions T) of Inl err \<Rightarrow> Inl err | Inr a \<Rightarrow> Inr (T, a))
      else
        (case getitem T st of
           Inl err \<Rightarrow> Inl err
         | Inr (T1, q) \<Rightarrow>
             (case np_max q of
                Inl err \<Rightarrow> Inl err
              | Inr m \<Rightarrow>
                  (let idxs = max_positions q m in
                   case choice r idxs of
                     Inl err \<Rightarrow> Inl err
                   | Inr i \<Rightarrow> Inr (T1, int i)))))"

definition update ::
  "'k QTable \<Rightarrow> 'k \<Rightarrow> int \<Rightarrow> real \<Rightarrow> 'k \<Rightarrow> real \<Rightarrow> real \<Rightarrow> error + 'k QTable" where
  "update T s a r s2 alpha gamma =
     (case getitem T s of
        Inl err \<Rightarrow> Inl err
      | Inr (T1, row) \<Rightarrow>
          (case py_index row a of
             Inl err \<Rightarrow> Inl err
           | Inr qsa \<Rightarrow>
               (case getitem T1 s2 of
                  Inl err \<Rightarrow> Inl err
                | Inr (T2, row2) \<Rightarrow>
                    (case np_max row2 of
                       Inl err \<Rightarrow> Inl err
                     | Inr m \<Rightarrow>
                         (let td = r + gamma * m - qsa in
                          case getitem T2 s of
                            Inl err \<Rightarrow> Inl err
                          | Inr (T3, row3) \<Rightarrow>
                              (case norm_index (length row3) a of
                                 Inl err \<Rightarrow> Inl err
                               | Inr j \<Rightarrow>
                                   Inr (T3\<lparr>Q := AList.update s (row3[j := qsa + alpha * td])
                                                   (Q T3)\<rparr>)))))))"












section \<open>Evaluation loop (src/evaluate.py)\<close>

datatype npfloat = NaN | Fin real

record stats =
  episodes :: int
  grid :: int
  mean_score :: npfloat
  std_score :: npfloat
  max_score :: int
  min_score :: int

text \<open>On an empty array \<^verbatim>\<open>mean\<close> and \<^verbatim>\<open>std\<close> warn and return nan, while
  \<^verbatim>\<open>max\<close> and \<^verbatim>\<open>min\<close> raise ValueError.\<close>

definition np_mean :: "real list \<Rightarrow> npfloat" where
  "np_mean arr = (if arr = [] then NaN else Fin (sum_list arr / real (length arr)))"

definition np_std :: "real list \<Rightarrow> npfloat" where
  "np_std arr =
     (if arr = [] then NaN
      else (let mu = sum_list arr / real (length arr)
            in Fin (sqrt (sum_list (map (\<lambda>x. (x - mu)\<^sup>2) arr) / real (length arr)))))"

definition np_amax :: "real list \<Rightarrow> error + real" where
  "np_amax arr = (case arr of [] \<Rightarrow> Inl ValueError | x # xs \<Rightarrow> Inr (fold max xs x))"

definition np_amin :: "real list \<Rightarrow> error + real" where
  "np_amin arr = (case arr of [] \<Rightarrow> Inl ValueError | x # xs \<Rightarrow> Inr (fold min xs x))"

text \<open>\<^verbatim>\<open>int(x)\<close> of a float truncates towards zero.\<close>

definition py_int :: "real \<Rightarrow> int" where
  "py_int x = (if 0 \<le> x then \<lfloor>x\<rfloor> else \<lceil>x\<rceil>)"

text \<open>The action chosen in the loop body:
  \<^verbatim>\<open>int(np.argmax(Q.Q[s])) if s in Q.Q else 1\<close>.\<close>

definition policy :: "encoded QTable \<Rightarrow> encoded \<Rightarrow> error + encoded QTable \<times> int" where
  "policy T s =
     (if contains T s then
        (case getitem T s of
           Inl err \<Rightarrow> Inl err
         | Inr (T1, q) \<Rightarrow>
             (case np_argmax q of Inl err \<Rightarrow> Inl err | Inr a \<Rightarrow> Inr (T1, a)))
      else Inr (T, 1))"

text \<open>The inner \<^verbatim>\<open>while not done and steps < max_steps\<close> loop.\<close>

function episode_loop ::
  "int \<Rightarrow> encoded QTable \<times> env \<times> encoded \<times> int \<times> int \<times> bool
     \<Rightarrow> error + encoded QTable \<times> env \<times> int" where
  "episode_loop max_steps (T, e, s, stp, score, done) =
     (if \<not> done \<and> stp < max_steps then
        (case policy T s of
           Inl err \<Rightarrow> Inl err
         | Inr (T1, a) \<Rightarrow>
             (case step a e of
                Inl err \<Rightarrow> Inl err
              | Inr (e1, (s1, r, done1, info)) \<Rightarrow>
                  episode_loop max_steps
                    (T1, e1, s1, stp + 1,
                     (if map_of info ''ate'' = Some True then score + 1 else score), done1)))
      else Inr (T, e, score))"
  by pat_completeness auto
termination
  by (relation "measure (\<lambda>(max_steps, T, e, s, stp, score, done). nat (max_steps - stp))") auto

declare episode_loop.simps [simp del]

text \<open>The outer \<^verbatim>\<open>for _ in range(episodes)\<close> loop, by the number of iterations left.\<close>

fun episodes_loop ::
  "nat \<Rightarrow> int \<Rightarrow> encoded QTable \<Rightarrow> env \<Rightarrow> int list
     \<Rightarrow> error + encoded QTable \<times> env \<times> int list" where
  "episodes_loop 0 max_steps T e totals = Inr (T, e, totals)"
| "episodes_loop (Suc k) max_steps T e totals =
     (case reset e of
        Inl err \<Rightarrow> Inl err
      | Inr (e1, s) \<Rightarrow>
          (case episode_loop max_steps (T, e1, s, 0, 0, False) of
             Inl err \<Rightarrow> Inl err
           | Inr (T1, e2, score) \<Rightarrow> episodes_loop k max_steps T1 e2 (totals @ [score])))"

definition evaluate ::
  "encoded QTable \<Rightarrow> int \<Rightarrow> int \<Rightarrow> (nat \<Rightarrow> nat) \<Rightarrow> int \<Rightarrow> error + encoded QTable \<times> stats" where
  "evaluate T count sz seed max_steps =
     (let e = init_env sz seed in
      case episodes_loop (nat count) max_steps T e [] of
        Inl err \<Rightarrow> Inl err
      | Inr (T1, e1, totals) \<Rightarrow>
          (let arr = map real_of_int totals;
               mean = np_mean arr;
               std = np_std arr
           in case np_amax arr of
                Inl err \<Rightarrow> Inl err
              | Inr mx \<Rightarrow>
                  (case np_amin arr of
                     Inl err \<Rightarrow> Inl err
                   | Inr mn \<Rightarrow>
                       Inr (T1, \<lparr>episodes = count, grid = sz, mean_score = mean,
                                 std_score = std, max_score = py_int mx,
                                 min_score = py_int mn\<rparr>))))"

section \<open>Reachable states, invariant and sample states\<close>

text \<open>The states an environment object can be in after a reset and any number of steps,
  for every grid size, seed and sequence of actions.\<close>

inductive reachable :: "env \<Rightarrow> bool" where
  fresh: "reset (init_env sz seed) = Inr (e, s) \<Longrightarrow> reachable e"
| again: "reachable e \<Longrightarrow> reset e = Inr (e', s) \<Longrightarrow> reachable e'"
| move: "reachable e \<Longrightarrow> step a e = Inr (e', out) \<Longrightarrow> reachable e'"

text \<open>What holds of every reachable state.\<close>

definition env_inv :: "env \<Rightarrow> bool" where
  "env_inv e \<longleftrightarrow>
     2 \<le> length (snake e) \<and> distinct (snake e) \<and> 0 \<le> dir e \<and> dir e < 4 \<and>
     food e \<notin> set (snake e)"

text \<open>A cell is blocked when it is off the grid or holds a segment of the snake other
  than its tail.\<close>

definition blocked :: "env \<Rightarrow> int \<times> int \<Rightarrow> bool" where
  "blocked e c \<longleftrightarrow> out_of_bounds e c \<or> (c \<in> set (snake e) \<and> c \<noteq> last (snake e))"

text \<open>A seed and the states of a short game on the 2 x 2 grid.\<close>

definition seed0 :: "nat \<Rightarrow> nat" where
  "seed0 = (\<lambda>_. 0)"

definition env2 :: env where
  "env2 = \<lparr>n = 2, rng = seed0, dir = 1, snake = [(1, 1), (0, 1)], food = (0, 0),
            steps = 0, prev_dist = 2\<rparr>"

definition env2a :: env where
  "env2a = \<lparr>n = 2, rng = seed0, dir = 0, snake = [(1, 0), (1, 1)], food = (0, 0),
            steps = 1, prev_dist = 1\<rparr>"

definition env2b :: env where
  "env2b = \<lparr>n = 2, rng = seed0, dir = 3, snake = [(0, 0), (1, 0), (1, 1)], food = (0, 1),
            steps = 2, prev_dist = 1\<rparr>"


text \<open>A table with one key, the encoded state right after a reset on the 2 x 2 grid.\<close>

definition table1 :: "encoded QTable" where
  "table1 = \<lparr>actions = 3, Q = [((0, 1, 1, -1, -1, 1), [0, 0, 1])]\<rparr>"

text \<open>A table as the class builds it: the keys of the dictionary are distinct and every
  value vector has the length given by the action count.\<close>

definition wf_table :: "'k QTable \<Rightarrow> bool" where
  "wf_table T \<longleftrightarrow>
     distinct (map fst (Q T)) \<and> list_all (\<lambda>kv. int (length (snd kv)) = actions T) (Q T)"

text \<open>The value vector of a key, an absent key read as the all-zero vector, and the
  table after the lazy initialisation of a key.\<close>

definition row :: "'k QTable \<Rightarrow> 'k \<Rightarrow> real list" where
  "row T k = (case map_of (Q T) k of None \<Rightarrow> replicate (nat (actions T)) 0 | Some v \<Rightarrow> v)"

definition lazy :: "'k QTable \<Rightarrow> 'k \<Rightarrow> 'k QTable" where
  "lazy T k =
     (case map_of (Q T) k of
        None \<Rightarrow> T\<lparr>Q := Q T @ [(k, replicate (nat (actions T)) 0)]\<rparr>
      | Some v \<Rightarrow> T)"

text \<open>The positions at which a value vector attains its maximum.\<close>

definition maximizers :: "real list \<Rightarrow> nat set" where
  "maximizers q = {i. i < length q \<and> q ! i = Max (set q)}"

text \<open>A table with two keys, one of them with a tie for the maximum.\<close>

definition table2 :: "string QTable" where
  "table2 = \<lparr>actions = 3, Q = [(''k'', [1, 0, -1]), (''tie'', [2, 0, 2])]\<rparr>"




text \<open>A sequence of steps, the outcomes dropped, and a game on the 3 x 3 grid that ends
  with one free cell, the food, straight ahead of the head.\<close>

fun run :: "int list \<Rightarrow> env \<Rightarrow> error + env" where
  "run [] e = Inr e"
| "run (a # as) e = (case step a e of Inl err \<Rightarrow> Inl err | Inr (e', out) \<Rightarrow> run as e')"

definition env3 :: env where
  "env3 = \<lparr>n = 3, rng = seed0, dir = 1, snake = [(1, 1), (0, 1)], food = (0, 0),
            steps = 0, prev_dist = 2\<rparr>"

definition env3f :: env where
  "env3f = \<lparr>n = 3, rng = seed0, dir = 2,
             snake = [(2, 1), (2, 0), (1, 0), (1, 1), (1, 2), (0, 2), (0, 1), (0, 0)],
             food = (2, 2), steps = 9, prev_dist = 1\<rparr>"

section \<open>Properties of the simulator\<close>

lemma py_index_DIRS: "0 \<le> d \<Longrightarrow> d < 4 \<Longrightarrow> py_index DIRS d = Inr (DIRS ! nat d)"
  by (simp add: py_index_def norm_index_def DIRS_def)

lemma turn_fields [simp]:
  "snake (turn a e) = snake e" "food (turn a e) = food e" "n (turn a e) = n e"
  "steps (turn a e) = steps e" "prev_dist (turn a e) = prev_dist e" "rng (turn a e) = rng e"
  by (simp_all add: turn_def)

lemma turn_dir_range: "0 \<le> dir e \<Longrightarrow> dir e < 4 \<Longrightarrow> 0 \<le> dir (turn a e) \<and> dir (turn a e) < 4"
  by (simp add: turn_def)

lemma turn_eq: "turn a e = e\<lparr>dir := dir (turn a e)\<rparr>"
  by (simp add: turn_def)

lemma turn_inv: "env_inv e \<Longrightarrow> env_inv (turn a e)"
  using turn_dir_range [of e a] by (simp add: env_inv_def)

lemma out_of_bounds_dir [simp]: "out_of_bounds (e\<lparr>dir := d\<rparr>) c = out_of_bounds e c"
  by (simp add: out_of_bounds_def)

lemma danger_Inr:
  assumes "snake e = (hx, hy) # rest" "0 \<le> d" "d < 4" "d = (dir e + rel) mod 4"
  shows "danger e rel = Inr (if out_of_bounds e (hx + fst (DIRS ! nat d), hy + snd (DIRS ! nat d))
                               \<or> (hx + fst (DIRS ! nat d), hy + snd (DIRS ! nat d)) \<in> set (butlast (snake e))
                             then 1 else 0)"
  using assms py_index_DIRS [of d]
  by (simp add: danger_def Let_def split: prod.splits)

lemma state_Inr:
  assumes "snake e = (hx, hy) # rest"
  shows "\<exists>dl df dr sx sy. state e = Inr (dl, df, dr, sx, sy, dir e) \<and>
           danger e (-1) = Inr dl \<and> danger e 0 = Inr df \<and> danger e 1 = Inr dr"
proof -
  have r: "0 \<le> (dir e + rel) mod 4 \<and> (dir e + rel) mod 4 < 4" for rel by simp
  obtain dl where dl: "danger e (-1) = Inr dl"
    using danger_Inr [OF assms _ _ refl, of "-1"] r [of "-1"] by blast
  obtain df where df: "danger e 0 = Inr df"
    using danger_Inr [OF assms _ _ refl, of 0] r [of 0] by blast
  obtain dr where dr: "danger e 1 = Inr dr"
    using danger_Inr [OF assms _ _ refl, of 1] r [of 1] by blast
  show ?thesis using assms dl df dr
    by (cases "food e") (simp add: state_def Let_def)
qed

lemma state_total: "snake e \<noteq> [] \<Longrightarrow> \<exists>s. state e = Inr s"
proof -
  assume "snake e \<noteq> []"
  then obtain hx hy rest where "snake e = (hx, hy) # rest"
    by (cases "snake e") auto
  from state_Inr [OF this] show ?thesis by blast
qed

lemma choice_mem: "xs \<noteq> [] \<Longrightarrow> xs ! (r mod length xs) \<in> set xs"
  by simp

lemma place_food_Inr:
  assumes "place_food e = Inr e'"
  shows "e' = e\<lparr>food := food e', rng := rng e'\<rparr> \<and> food e' \<in> set (free_cells e)"
proof -
  let ?cells = "free_cells e"
  from assms have ne: "?cells \<noteq> []"
    by (auto simp: place_food_def choice_def Let_def split: if_splits)
  with assms have e': "e' = e\<lparr>food := ?cells ! (rng e 0 mod length ?cells), rng := (\<lambda>i. rng e (Suc i))\<rparr>"
    by (simp add: place_food_def choice_def Let_def)
  have "food e' = ?cells ! (rng e 0 mod length ?cells)" by (simp add: e')
  with choice_mem [OF ne] have "food e' \<in> set ?cells" by simp
  moreover have "e' = e\<lparr>food := food e', rng := rng e'\<rparr>" by (simp add: e')
  ultimately show ?thesis by simp
qed

lemma place_food_fields:
  assumes "place_food e = Inr e'"
  shows "snake e' = snake e" "dir e' = dir e" "n e' = n e" "steps e' = steps e"
    "prev_dist e' = prev_dist e" "food e' \<notin> set (snake e)"
proof -
  from place_food_Inr [OF assms]
  have e': "e' = e\<lparr>food := food e', rng := rng e'\<rparr>" and f: "food e' \<in> set (free_cells e)"
    by simp_all
  show "snake e' = snake e" by (subst e') simp
  show "dir e' = dir e" by (subst e') simp
  show "n e' = n e" by (subst e') simp
  show "steps e' = steps e" by (subst e') simp
  show "prev_dist e' = prev_dist e" by (subst e') simp
  show "food e' \<notin> set (snake e)" using f by (simp add: free_cells_def)
qed

lemma reset_inv:
  assumes "reset e = Inr (e', s)"
  shows "env_inv e'"
proof -
  let ?mid = "n e div 2"
  let ?e1 = "e\<lparr>dir := 1, snake := [(?mid, ?mid), (?mid - 1, ?mid)]\<rparr>"
  from assms obtain e2 where pf: "place_food ?e1 = Inr e2"
    by (auto simp: reset_def Let_def split: sum.splits)
  with assms have e': "e' = e2\<lparr>steps := 0, prev_dist := prev_dist e'\<rparr>"
    by (auto simp: reset_def Let_def split: sum.splits)
  have "snake e' = snake e2" "dir e' = dir e2" "food e' = food e2"
    by (subst e', simp)+
  with place_food_fields [OF pf] show ?thesis
    by (simp add: env_inv_def)
qed

lemma butlast_distinct_mem:
  "distinct xs \<Longrightarrow> xs \<noteq> [] \<Longrightarrow> c \<in> set (butlast xs) \<longleftrightarrow> c \<in> set xs \<and> c \<noteq> last xs"
  by (induction xs) auto

lemma died_Inr: "snake e \<noteq> [] \<Longrightarrow> \<exists>s. state e = Inr s \<and> died e = Inr (e, (s, -10, True, []))"
  using state_total [of e] by (auto simp: died_def)

lemma commit_fields:
  assumes "commit e1 h w = Inr (e', out)"
  shows "dir e' = dir e1" "n e' = n e1"
    "snake e' = (if w then h # snake e1 else butlast (h # snake e1))"
    "\<not> w \<Longrightarrow> food e' = food e1" "w \<Longrightarrow> food e' \<notin> set (h # snake e1)"
proof -
  let ?e2 = "e1\<lparr>snake := h # snake e1\<rparr>"
  let ?moved = "if w then place_food ?e2 else Inr (?e2\<lparr>snake := butlast (snake ?e2)\<rparr>)"
  from assms obtain e3 where m: "?moved = Inr e3"
    by (cases ?moved) (simp_all add: commit_def Let_def)
  from assms m have e': "e' = e3\<lparr>prev_dist := prev_dist e', steps := steps e'\<rparr>"
    by (auto simp: commit_def Let_def split: sum.splits if_splits)
  have p: "dir e' = dir e3" "n e' = n e3" "snake e' = snake e3" "food e' = food e3"
    by (subst e', simp)+
  have q: "dir e3 = dir e1 \<and> n e3 = n e1 \<and> snake e3 = (if w then h # snake e1 else butlast (h # snake e1))
      \<and> (\<not> w \<longrightarrow> food e3 = food e1) \<and> (w \<longrightarrow> food e3 \<notin> set (h # snake e1))"
  proof (cases w)
    case True
    with m have "place_food ?e2 = Inr e3" by simp
    from place_food_fields [OF this] True show ?thesis by simp
  next
    case False
    with m have "e3 = ?e2\<lparr>snake := butlast (snake ?e2)\<rparr>" by simp
    with False show ?thesis by simp
  qed
  show "dir e' = dir e1" "n e' = n e1"
    "snake e' = (if w then h # snake e1 else butlast (h # snake e1))"
    "\<not> w \<Longrightarrow> food e' = food e1" "w \<Longrightarrow> food e' \<notin> set (h # snake e1)"
    using p q by simp_all
qed

lemma step_cases:
  assumes st: "step a e = Inr (e', out)"
  obtains (died) "e' = turn a e"
  | (moved) h where "h \<notin> set (if h = food e then snake e else butlast (snake e))"
       "commit (turn a e) h (h = food e) = Inr (e', out)"
proof -
  let ?e1 = "turn a e"
  from st obtain dx dy where d: "py_index DIRS (dir ?e1) = Inr (dx, dy)"
    by (cases "py_index DIRS (dir ?e1)") (auto simp: step_def Let_def)
  from st d obtain hx hy rest where sn: "snake e = (hx, hy) # rest"
    by (cases "snake e") (auto simp: step_def Let_def)
  let ?h = "(hx + dx, hy + dy)"
  have ne: "snake ?e1 \<noteq> []" using sn by simp
  show thesis
  proof (cases "out_of_bounds ?e1 ?h \<or> ?h \<in> set (if ?h = food e then snake e else butlast (snake e))")
    case True
    with st d sn have "died ?e1 = Inr (e', out)"
      by (auto simp: step_def Let_def split: if_splits)
    with died_Inr [OF ne] have "e' = ?e1" by auto
    then show thesis by (rule died)
  next
    case False
    with st d sn have "commit ?e1 ?h (?h = food e) = Inr (e', out)"
      by (auto simp: step_def Let_def split: if_splits)
    with False show thesis by (intro moved [of ?h]) auto
  qed
qed

lemma step_inv:
  assumes inv: "env_inv e" and st: "step a e = Inr (e', out)"
  shows "env_inv e'"
  using st
proof (cases rule: step_cases)
  case died
  with turn_inv [OF inv] show ?thesis by simp
next
  case (moved h)
  note cf = commit_fields [OF moved(2)]
  show ?thesis
  proof (cases "h = food e")
    case True
    with cf moved(1) inv turn_dir_range [of e a] show ?thesis
      by (auto simp: env_inv_def)
  next
    case False
    from inv have "length (butlast (snake e)) \<ge> 1" "distinct (butlast (snake e))"
      "food e \<notin> set (butlast (snake e))"
      by (auto simp: env_inv_def distinct_butlast dest: in_set_butlastD)
    moreover from inv have "snake e \<noteq> []" by (auto simp: env_inv_def)
    ultimately show ?thesis
      using False cf moved(1) inv turn_dir_range [of e a]
      by (auto simp: env_inv_def)
  qed
qed

lemma reachable_inv: "reachable e \<Longrightarrow> env_inv e"
  by (induction rule: reachable.induct) (auto intro: reset_inv step_inv)

lemmas eval_defs = reset_def step_def commit_def died_def place_food_def choice_def free_cells_def grid_cells_def
  norm_index_def
  state_def danger_def py_index_def DIRS_def out_of_bounds_def manhattan_def turn_def Let_def
  init_env_def seed0_def eval_nat_numeral

lemma reset_env2: "reset (init_env 2 seed0) = Inr (env2, (0, 1, 1, -1, -1, 1))"
  by (simp add: eval_defs env2_def)

lemma step_env2: "step 0 env2 = Inr (env2a, ((0, 1, 1, -1, 0, 0), 0.04, False, [(''ate'', False)]))"
  by (simp add: eval_defs env2_def env2a_def)

lemma step_env2a: "step 0 env2a = Inr (env2b, ((0, 1, 1, 0, 1, 3), 9.99, False, [(''ate'', True)]))"
  by (simp add: eval_defs env2b_def env2a_def)

lemma step_env2b: "step 0 env2b = Inl IndexError"
  by (simp add: eval_defs env2b_def)

lemma step2_env2: "step 2 env2 = Inr (env2\<lparr>dir := 2\<rparr>, ((1, 1, 0, -1, -1, 2), -10, True, []))"
  by (simp add: eval_defs env2_def)

lemma reachable_env2: "reachable env2"
  using reset_env2 by (rule reachable.fresh)

lemma free_cells_nonempty:
  assumes "c \<in> set (grid_cells (n e))" "c \<notin> set (snake e)"
  shows "free_cells e \<noteq> []"
proof -
  from assms have "c \<in> set (free_cells e)" by (simp add: free_cells_def)
  then show ?thesis by auto
qed

lemma place_food_total: "free_cells e \<noteq> [] \<Longrightarrow> \<exists>e'. place_food e = Inr e'"
  by (simp add: place_food_def choice_def Let_def)

lemma commit_total:
  assumes ne: "snake e1 \<noteq> []" and room: "w \<Longrightarrow> free_cells (e1\<lparr>snake := h # snake e1\<rparr>) \<noteq> []"
  shows "\<exists>res. commit e1 h w = Inr res"
proof -
  let ?e2 = "e1\<lparr>snake := h # snake e1\<rparr>"
  let ?moved = "if w then place_food ?e2 else Inr (?e2\<lparr>snake := butlast (snake ?e2)\<rparr>)"
  have "\<exists>e3. ?moved = Inr e3 \<and> snake e3 \<noteq> []"
  proof (cases w)
    case True
    from place_food_total [OF room [OF True]] obtain e3 where e3: "place_food ?e2 = Inr e3" by blast
    from place_food_fields(1) [OF e3] have "snake e3 \<noteq> []" by simp
    with e3 True show ?thesis by simp
  next
    case False
    with ne show ?thesis by simp
  qed
  then obtain e3 where m: "?moved = Inr e3" and ne3: "snake e3 \<noteq> []" by blast
  define dist where "dist = manhattan h (food e3)"
  let ?e5 = "e3\<lparr>prev_dist := dist, steps := steps e3 + 1\<rparr>"
  have "snake ?e5 \<noteq> []" using ne3 by simp
  from state_total [OF this] obtain s where "state ?e5 = Inr s" by blast
  with m show ?thesis
    by (simp add: commit_def Let_def dist_def del: butlast.simps split_paired_Ex)
qed

lemma step_total:
  assumes inv: "env_inv e"
    and room: "\<not> set (grid_cells (n e)) \<subseteq> insert (food e) (set (snake e))"
  shows "\<exists>res. step a e = Inr res"
proof -
  let ?e1 = "turn a e"
  from inv obtain hx hy rest where sn: "snake e = (hx, hy) # rest"
    by (cases "snake e") (auto simp: env_inv_def)
  from inv turn_dir_range [of e a] have "0 \<le> dir ?e1" "dir ?e1 < 4"
    by (simp_all add: env_inv_def)
  from py_index_DIRS [OF this] obtain dx dy where d: "py_index DIRS (dir ?e1) = Inr (dx, dy)"
    by (cases "DIRS ! nat (dir ?e1)") simp
  let ?h = "(hx + dx, hy + dy)"
  have ne: "snake ?e1 \<noteq> []" using sn by simp
  show ?thesis
  proof (cases "out_of_bounds ?e1 ?h \<or> ?h \<in> set (if ?h = food e then snake e else butlast (snake e))")
    case True
    with d sn have "step a e = died ?e1"
      by (auto simp: step_def Let_def)
    with died_Inr [OF ne] show ?thesis by auto
  next
    case False
    with d sn have st: "step a e = commit ?e1 ?h (?h = food e)"
      by (auto simp: step_def Let_def)
    have "free_cells (?e1\<lparr>snake := ?h # snake ?e1\<rparr>) \<noteq> []" if "?h = food e"
    proof -
      from room obtain c where "c \<in> set (grid_cells (n e))" "c \<noteq> food e" "c \<notin> set (snake e)"
        by auto
      with that show ?thesis
        by (intro free_cells_nonempty [of c]) simp_all
    qed
    from commit_total [OF ne this] st show ?thesis by simp
  qed
qed

lemma reset_total:
  assumes "2 \<le> n e"
  shows "\<exists>res. reset e = Inr res"
proof -
  let ?mid = "n e div 2"
  let ?e1 = "e\<lparr>dir := 1, snake := [(?mid, ?mid), (?mid - 1, ?mid)]\<rparr>"
  from assms have mid: "1 \<le> ?mid" by simp
  have "(0, 0) \<in> set (grid_cells (n e))"
    using assms by (auto simp: grid_cells_def image_iff)
  moreover have "(0, 0) \<notin> set (snake ?e1)" using mid by auto
  ultimately have "free_cells ?e1 \<noteq> []"
    by (intro free_cells_nonempty [of "(0, 0)"]) simp_all
  from place_food_total [OF this] obtain e2 where e2: "place_food ?e1 = Inr e2" by blast
  from place_food_fields(1) [OF e2] have sn: "snake e2 = [(?mid, ?mid), (?mid - 1, ?mid)]" by simp
  let ?e4 = "e2\<lparr>steps := 0, prev_dist := manhattan (hd (snake e2)) (food e2)\<rparr>"
  have "snake ?e4 \<noteq> []" using sn by simp
  from state_total [OF this] obtain s where "state ?e4 = Inr s" by blast
  with e2 show ?thesis by (simp add: reset_def Let_def del: split_paired_Ex)
qed


lemma danger_flag:
  assumes inv: "env_inv e" and sn: "snake e = (hx, hy) # rest"
  shows "danger e rel = Inr (if out_of_bounds e (hx + fst (DIRS ! nat ((dir e + rel) mod 4)), hy + snd (DIRS ! nat ((dir e + rel) mod 4)))
           \<or> ((hx + fst (DIRS ! nat ((dir e + rel) mod 4)), hy + snd (DIRS ! nat ((dir e + rel) mod 4))) \<in> set (snake e)
              \<and> (hx + fst (DIRS ! nat ((dir e + rel) mod 4)), hy + snd (DIRS ! nat ((dir e + rel) mod 4))) \<noteq> last (snake e)) then 1 else 0)"
proof -
  from inv have "distinct (snake e)" "snake e \<noteq> []" by (auto simp: env_inv_def)
  note bl = butlast_distinct_mem [OF this]
  have "0 \<le> (dir e + rel) mod 4" "(dir e + rel) mod 4 < 4" by simp_all
  from danger_Inr [OF sn this refl] show ?thesis by (simp add: bl)
qed

lemma DIRS_rot:
  assumes "0 \<le> d" "d < 4" "DIRS ! nat d = (dx, dy)"
  shows "DIRS ! nat ((d + 0) mod 4) = (dx, dy)"
    "DIRS ! nat ((d + (-1)) mod 4) = (dy, - dx)"
    "DIRS ! nat ((d + 1) mod 4) = (- dy, dx)"
proof -
  from assms(1,2) have "d = 0 \<or> d = 1 \<or> d = 2 \<or> d = 3" by arith
  with assms(3) show "DIRS ! nat ((d + 0) mod 4) = (dx, dy)"
    "DIRS ! nat ((d + (-1)) mod 4) = (dy, - dx)"
    "DIRS ! nat ((d + 1) mod 4) = (- dy, dx)"
    by (auto simp: DIRS_def eval_nat_numeral)
qed

subsection \<open>A game on the 3 x 3 grid\<close>

lemma grid3: "grid_cells 3 = [(0,0),(0,1),(0,2),(1,0),(1,1),(1,2),(2,0),(2,1),(2,2)]"
  by (simp add: grid_cells_def eval_nat_numeral)

lemmas eval3 = reset_def step_def commit_def died_def place_food_def choice_def free_cells_def grid3
  norm_index_def state_def danger_def py_index_def DIRS_def out_of_bounds_def manhattan_def turn_def
  Let_def init_env_def seed0_def

lemma run_reachable: "reachable e \<Longrightarrow> run as e = Inr e' \<Longrightarrow> reachable e'"
proof (induction as arbitrary: e)
  case Nil
  then show ?case by simp
next
  case (Cons a as)
  from Cons.prems(2) obtain e1 out where st: "step a e = Inr (e1, out)"
    by (cases "step a e") auto
  with Cons.prems(2) have "run as e1 = Inr e'" by simp
  with Cons.IH [OF reachable.move [OF Cons.prems(1) st]] show ?case by simp
qed

lemma run_one: "run [a] e = Inr e1 \<Longrightarrow> run (a # as) e = run as e1"
  by (cases "step a e") auto

lemma reset_env3: "reset (init_env 3 seed0) = Inr (env3, (0, 0, 0, -1, -1, 1))"
  by (simp add: eval3 env3_def)

lemma run_env3: "run [0, 0, 0, 1, 0, 0, 1, 2, 2] env3 = Inr env3f"
proof -
  let ?e1 = "\<lparr>n = 3, rng = seed0, dir = 0, snake = [(1, 0), (1, 1)], food = (0, 0), steps = 1, prev_dist = 1\<rparr>"
  let ?e2 = "\<lparr>n = 3, rng = seed0, dir = 3, snake = [(0, 0), (1, 0), (1, 1)], food = (0, 1), steps = 2, prev_dist = 1\<rparr>"
  let ?e3 = "\<lparr>n = 3, rng = seed0, dir = 2, snake = [(0, 1), (0, 0), (1, 0), (1, 1)], food = (0, 2), steps = 3, prev_dist = 1\<rparr>"
  let ?e4 = "\<lparr>n = 3, rng = seed0, dir = 2, snake = [(0, 2), (0, 1), (0, 0), (1, 0), (1, 1)], food = (1, 2), steps = 4, prev_dist = 1\<rparr>"
  let ?e5 = "\<lparr>n = 3, rng = seed0, dir = 1, snake = [(1, 2), (0, 2), (0, 1), (0, 0), (1, 0), (1, 1)], food = (2, 0), steps = 5, prev_dist = 3\<rparr>"
  let ?e6 = "\<lparr>n = 3, rng = seed0, dir = 0, snake = [(1, 1), (1, 2), (0, 2), (0, 1), (0, 0), (1, 0)], food = (2, 0), steps = 6, prev_dist = 2\<rparr>"
  let ?e7 = "\<lparr>n = 3, rng = seed0, dir = 0, snake = [(1, 0), (1, 1), (1, 2), (0, 2), (0, 1), (0, 0)], food = (2, 0), steps = 7, prev_dist = 1\<rparr>"
  let ?e8 = "\<lparr>n = 3, rng = seed0, dir = 1, snake = [(2, 0), (1, 0), (1, 1), (1, 2), (0, 2), (0, 1), (0, 0)], food = (2, 1), steps = 8, prev_dist = 1\<rparr>"
  have r1: "run [0] env3 = Inr ?e1"
    by (simp add: eval3 env3_def env3f_def)
  have r2: "run [0] ?e1 = Inr ?e2"
    by (simp add: eval3 env3_def env3f_def)
  have r3: "run [0] ?e2 = Inr ?e3"
    by (simp add: eval3 env3_def env3f_def)
  have r4: "run [1] ?e3 = Inr ?e4"
    by (simp add: eval3 env3_def env3f_def)
  have r5: "run [0] ?e4 = Inr ?e5"
    by (simp add: eval3 env3_def env3f_def)
  have r6: "run [0] ?e5 = Inr ?e6"
    by (simp add: eval3 env3_def env3f_def)
  have r7: "run [1] ?e6 = Inr ?e7"
    by (simp add: eval3 env3_def env3f_def)
  have r8: "run [2] ?e7 = Inr ?e8"
    by (simp add: eval3 env3_def env3f_def)
  have r9: "run [2] ?e8 = Inr env3f"
    by (simp add: eval3 env3_def env3f_def)
  show ?thesis
    by (simp only: run_one [OF r1] run_one [OF r2] run_one [OF r3] run_one [OF r4] run_one [OF r5] run_one [OF r6] run_one [OF r7] run_one [OF r8] run_one [OF r9] run.simps(1))
qed

lemma step_env3f:
  "step 3 env3f = Inl IndexError" "step (-1) env3f = Inl IndexError" "step 1 env3f = Inl IndexError"
  by (simp_all add: eval3 env3f_def)

subsection \<open>Stepping into a wall\<close>

text \<open>
  Claim C1, as amended. When the cell proposed after the relative turn is outside the
  grid, \<open>step\<close> returns done = True, reward -10 and an empty info map, and the state it
  encodes is the state at the start of the call with the heading replaced by the heading
  after the turn: snake, food, step counter and previous distance are unchanged, and the
  danger flags are those of the turned heading. For an action other than 0 and 2 the
  heading is unchanged as well, so the whole state is the one before the call.
\<close>

theorem step_into_wall:
  assumes "snake e = (hx, hy) # rest"
    and "py_index DIRS (dir (turn a e)) = Inr (dx, dy)"
    and "out_of_bounds e (hx + dx, hy + dy)"
  shows "\<exists>s. step a e = Inr (e\<lparr>dir := dir (turn a e)\<rparr>, (s, -10, True, []))
           \<and> state (e\<lparr>dir := dir (turn a e)\<rparr>) = Inr s
           \<and> (a \<noteq> 0 \<and> a \<noteq> 2 \<longrightarrow> e\<lparr>dir := dir (turn a e)\<rparr> = e)"
proof -
  let ?e1 = "turn a e"
  have ne: "snake ?e1 \<noteq> []" using assms(1) by simp
  have oob: "out_of_bounds ?e1 (hx + dx, hy + dy)"
    using assms(3) by (subst turn_eq) simp
  from assms(1,2) oob have "step a e = died ?e1"
    by (simp add: step_def Let_def)
  with died_Inr [OF ne] obtain s where "state ?e1 = Inr s" "step a e = Inr (?e1, (s, -10, True, []))"
    by auto
  moreover have "?e1 = e\<lparr>dir := dir ?e1\<rparr>" by (rule turn_eq)
  moreover have "a \<noteq> 0 \<and> a \<noteq> 2 \<longrightarrow> e\<lparr>dir := dir ?e1\<rparr> = e" by (simp add: turn_def)
  ultimately show ?thesis by metis
qed

theorem step_into_wall_witness:
  "out_of_bounds env2 (1 + 1, 1 + 0) \<and>
   step 1 env2 = Inr (env2, ((0, 1, 1, -1, -1, 1), -10, True, [])) \<and>
   state env2 = Inr (0, 1, 1, -1, -1, 1)"
proof -
  have a: "snake env2 = (1, 1) # [(0, 1)]" by (simp add: env2_def)
  have b: "py_index DIRS (dir (turn 1 env2)) = Inr (1, 0)"
    by (simp add: env2_def turn_def py_index_def norm_index_def DIRS_def)
  have c: "out_of_bounds env2 (1 + 1, 1 + 0)" by (simp add: env2_def out_of_bounds_def)
  have d: "env2\<lparr>dir := dir (turn 1 env2)\<rparr> = env2" by (simp add: turn_def)
  have s: "state env2 = Inr (0, 1, 1, -1, -1, 1)"
    by (simp add: eval_defs env2_def)
  from step_into_wall [OF a b c] c show ?thesis
    unfolding d s by auto
qed

text \<open>
  The claim as stated fails: on the 2 x 2 grid, right after a reset, turning right (action
  2) proposes the cell (1, 2) below the grid. The call returns heading 2 and the encoding
  (1, 1, 0, -1, -1, 2), while the state before the call has heading 1 and the encoding
  (0, 1, 1, -1, -1, 1). The turn is committed.
\<close>

theorem step_into_wall_turn_committed:
  "reset (init_env 2 seed0) = Inr (env2, (0, 1, 1, -1, -1, 1)) \<and>
   out_of_bounds env2 (1 + 0, 1 + 1) \<and>
   step 2 env2 = Inr (env2\<lparr>dir := 2\<rparr>, ((1, 1, 0, -1, -1, 2), -10, True, [])) \<and>
   state env2 = Inr (0, 1, 1, -1, -1, 1) \<and> dir env2 = 1"
  by (simp add: eval_defs env2_def)

subsection \<open>Danger flags\<close>

text \<open>
  Claim C7. In every reachable state, with (dx, dy) the vector of the current heading,
  the danger-front flag of the encoded state is 1 exactly when the cell one step ahead
  of the head is blocked (off the grid, or held by a segment of the snake other than the
  tail cell); danger-left and danger-right are 1 exactly when the cell one step along
  the heading rotated a quarter turn to the left, (dy, -dx), or to the right, (-dy, dx),
  is blocked. Each flag is 0 or 1.
\<close>

theorem danger_flags:
  assumes "reachable e" and "snake e = (hx, hy) # rest"
    and "py_index DIRS (dir e) = Inr (dx, dy)"
  shows "\<exists>dl df dr sx sy. state e = Inr (dl, df, dr, sx, sy, dir e)
           \<and> (df = 1 \<longleftrightarrow> blocked e (hx + dx, hy + dy))
           \<and> (dl = 1 \<longleftrightarrow> blocked e (hx + dy, hy - dx))
           \<and> (dr = 1 \<longleftrightarrow> blocked e (hx - dy, hy + dx))
           \<and> dl \<in> {0, 1} \<and> df \<in> {0, 1} \<and> dr \<in> {0, 1}"
proof -
  from assms(1) have inv: "env_inv e" by (rule reachable_inv)
  then have r: "0 \<le> dir e" "dir e < 4" by (simp_all add: env_inv_def)
  with assms(3) have dd: "DIRS ! nat (dir e) = (dx, dy)"
    by (simp add: py_index_DIRS)
  note rot = DIRS_rot [OF r dd]
  from state_Inr [OF assms(2)] obtain dl df dr sx sy where
    st: "state e = Inr (dl, df, dr, sx, sy, dir e)" and
    d: "danger e (-1) = Inr dl" "danger e 0 = Inr df" "danger e 1 = Inr dr"
    by blast
  from d(2) danger_flag [OF inv assms(2), of 0] rot(1)
  have f: "(df = 1 \<longleftrightarrow> blocked e (hx + dx, hy + dy)) \<and> df \<in> {0, 1}"
    by (auto simp: blocked_def split: if_splits)
  from d(1) danger_flag [OF inv assms(2), of "-1"] rot(2)
  have l: "(dl = 1 \<longleftrightarrow> blocked e (hx + dy, hy - dx)) \<and> dl \<in> {0, 1}"
    by (auto simp: blocked_def split: if_splits)
  from d(3) danger_flag [OF inv assms(2), of 1] rot(3)
  have rr: "(dr = 1 \<longleftrightarrow> blocked e (hx - dy, hy + dx)) \<and> dr \<in> {0, 1}"
    by (auto simp: blocked_def split: if_splits)
  from st f l rr show ?thesis by blast
qed

theorem danger_flags_witness:
  "state env2a = Inr (0, 1, 1, -1, 0, 0) \<and> \<not> blocked env2a (1 + (-1), 0 - 0)
     \<and> blocked env2a (1 + 0, 0 + (-1)) \<and> blocked env2a (1 - (-1), 0 + 0)"
proof -
  have r: "reachable env2a"
    using reachable_env2 step_env2 by (rule reachable.move)
  have a: "snake env2a = (1, 0) # [(1, 1)]" by (simp add: env2a_def)
  have b: "py_index DIRS (dir env2a) = Inr (0, -1)"
    by (simp add: env2a_def py_index_def norm_index_def DIRS_def)
  have s: "state env2a = Inr (0, 1, 1, -1, 0, 0)"
    by (simp add: eval_defs env2a_def)
  from danger_flags [OF r a b] s show ?thesis by simp
qed

subsection \<open>Food and snake are disjoint\<close>

text \<open>
  Claim C8. In every state reachable by a reset followed by any sequence of steps, the
  food cell is not a cell of the snake; and whenever food placement returns, the cell it
  chose is one of the free cells and is not a cell of the snake.
\<close>

theorem food_off_snake:
  "(reachable e \<longrightarrow> food e \<notin> set (snake e)) \<and>
   (place_food e0 = Inr e1 \<longrightarrow> food e1 \<in> set (free_cells e0) \<and> food e1 \<notin> set (snake e1))"
proof -
  have "food e \<notin> set (snake e)" if "reachable e"
    using reachable_inv [OF that] by (simp add: env_inv_def)
  moreover have "food e1 \<in> set (free_cells e0) \<and> food e1 \<notin> set (snake e1)" if "place_food e0 = Inr e1"
    using place_food_Inr [OF that] place_food_fields(1,6) [OF that] by simp
  ultimately show ?thesis by blast
qed

theorem food_off_snake_witness:
  "reachable env2b \<and> food env2b \<notin> set (snake env2b) \<and>
   place_food (env2a\<lparr>snake := [(0, 0), (1, 0), (1, 1)]\<rparr>) = Inr (env2b\<lparr>dir := 0, steps := 1\<rparr>) \<and>
   food (env2b\<lparr>dir := 0, steps := 1\<rparr>) \<notin> set (snake (env2b\<lparr>dir := 0, steps := 1\<rparr>))"
proof -
  have r: "reachable env2b"
    using reachable.move [OF reachable_env2 step_env2] step_env2a by (rule reachable.move)
  have p: "place_food (env2a\<lparr>snake := [(0, 0), (1, 0), (1, 1)]\<rparr>) = Inr (env2b\<lparr>dir := 0, steps := 1\<rparr>)"
    by (simp add: eval_defs env2a_def env2b_def)
  from food_off_snake [of env2b "env2a\<lparr>snake := [(0, 0), (1, 0), (1, 1)]\<rparr>" "env2b\<lparr>dir := 0, steps := 1\<rparr>"] r p
  show ?thesis by simp
qed

subsection \<open>Actions outside the three-action domain\<close>

text \<open>
  Claim C10, as amended. \<open>step\<close> accepts every integer action. For an action other than
  0 and 2 the heading is left unchanged and the call has the outcome of \<open>step 1\<close>: the
  same successor state, encoded state, reward, done flag and info map, or the same
  exception. From a reachable state with a cell that is neither snake nor food the call
  returns a result for every action value.
\<close>

theorem step_any_action_straight:
  assumes "a \<noteq> 0" and "a \<noteq> 2"
  shows "turn a e = e \<and> step a e = step 1 e \<and>
         (reachable e \<and> \<not> set (grid_cells (n e)) \<subseteq> insert (food e) (set (snake e))
            \<longrightarrow> (\<exists>res. step a e = Inr res))"
proof -
  from assms have "turn a e = e" "turn 1 e = e" by (simp_all add: turn_def)
  then have "step a e = step 1 e" by (simp add: step_def)
  with \<open>turn a e = e\<close> show ?thesis
    using step_total [of e a] reachable_inv [of e] by blast
qed

theorem step_any_action_straight_witness:
  "turn 3 env2a = env2a \<and> step (-1) env2a = step 1 env2a \<and> step 3 env2a = step 1 env2a \<and>
   step 3 env2a = Inr (env2a, ((0, 1, 1, -1, 0, 0), -10, True, []))"
proof -
  have s: "step 3 env2a = Inr (env2a, ((0, 1, 1, -1, 0, 0), -10, True, []))"
    by (simp add: eval_defs env2a_def)
  from step_any_action_straight [of 3 env2a] step_any_action_straight [of "-1" env2a] s
  show ?thesis by simp
qed

text \<open>
  The claim as stated fails: \<open>step\<close> is not total. On the 3 x 3 grid, nine steps after a
  reset the snake holds eight cells, heads down at (2, 1), and the food is the last free
  cell (2, 2) straight ahead. There the actions 3 and -1, like action 1, eat the food and
  raise IndexError, because no cell is left for the next food.
\<close>

theorem step_other_action_raises_on_full_grid:
  "reset (init_env 3 seed0) = Inr (env3, (0, 0, 0, -1, -1, 1)) \<and>
   run [0, 0, 0, 1, 0, 0, 1, 2, 2] env3 = Inr env3f \<and> reachable env3f \<and>
   step 3 env3f = Inl IndexError \<and> step (-1) env3f = Inl IndexError \<and>
   step 1 env3f = Inl IndexError"
proof -
  have "reachable env3" using reset_env3 by (rule reachable.fresh)
  from run_reachable [OF this run_env3] reset_env3 run_env3 step_env3f show ?thesis by simp
qed

subsection \<open>Totality of reset and step\<close>

text \<open>
  Claim C2, as amended. \<open>reset\<close> returns a result for every grid size of at least 2, and
  \<open>step\<close> returns a result for every action from every reachable state in which some
  grid cell is neither a cell of the snake nor the food cell.
\<close>

theorem reset_step_total_with_room:
  "(2 \<le> n e0 \<longrightarrow> (\<exists>res. reset e0 = Inr res)) \<and>
   (reachable e \<and> \<not> set (grid_cells (n e)) \<subseteq> insert (food e) (set (snake e))
      \<longrightarrow> (\<exists>res. step a e = Inr res))"
  using reset_total [of e0] step_total [of e a] reachable_inv [of e] by blast

theorem reset_step_total_with_room_witness:
  "2 \<le> n (init_env 2 seed0) \<and> (\<exists>res. reset (init_env 2 seed0) = Inr res) \<and>
   reachable env2 \<and> \<not> set (grid_cells (n env2)) \<subseteq> insert (food env2) (set (snake env2)) \<and>
   (\<exists>res. step 0 env2 = Inr res)"
proof -
  have a: "2 \<le> n (init_env 2 seed0)" by (simp add: init_env_def)
  have b: "\<not> set (grid_cells (n env2)) \<subseteq> insert (food env2) (set (snake env2))"
    by (simp add: env2_def grid_cells_def eval_nat_numeral)
  from reset_step_total_with_room [of "init_env 2 seed0" env2 0] a b reachable_env2
  show ?thesis by blast
qed

text \<open>
  The claim as stated fails. On the 1 x 1 grid \<open>reset\<close> raises IndexError: the start cell
  is the only cell, so the choice of a food cell is from an empty list. On the 2 x 2 grid
  three left turns after a reset eat the last free cell, and the third step raises
  IndexError in the same way.
\<close>

theorem reset_step_raise_on_full_grid:
  "reset (init_env 1 seed0) = Inl IndexError \<and>
   reset (init_env 2 seed0) = Inr (env2, (0, 1, 1, -1, -1, 1)) \<and>
   step 0 env2 = Inr (env2a, ((0, 1, 1, -1, 0, 0), 0.04, False, [(''ate'', False)])) \<and>
   step 0 env2a = Inr (env2b, ((0, 1, 1, 0, 1, 3), 9.99, False, [(''ate'', True)])) \<and>
   step 0 env2b = Inl IndexError"
proof -
  have "reset (init_env 1 seed0) = Inl IndexError"
    by (simp add: eval_defs)
  with reset_env2 step_env2 step_env2a step_env2b show ?thesis by simp
qed


section \<open>Properties of the evaluation loop\<close>

text \<open>
  Claim C3. With zero episodes the list of scores is empty; the mean and the standard
  deviation of the empty array are nan, but its maximum raises ValueError, so
  \<open>evaluate\<close> raises instead of returning statistics as the claim requires.
\<close>

theorem evaluate_zero_episodes_raises:
  "evaluate T 0 sz seed max_steps = Inl ValueError"
  by (simp add: evaluate_def np_amax_def)

subsection \<open>The table is read-only during evaluation\<close>

lemma getitem_present: "map_of (Q T) k = Some v \<Longrightarrow> getitem T k = Inr (T, v)"
  by (simp add: getitem_def)

lemma policy_absent: "\<not> contains T s \<Longrightarrow> policy T s = Inr (T, 1)"
  by (simp add: policy_def)

lemma policy_table:
  assumes "policy T s = Inr (T', a)"
  shows "T' = T"
proof (cases "map_of (Q T) s")
  case None
  with assms show ?thesis by (simp add: policy_def contains_def)
next
  case (Some v)
  with assms getitem_present [OF Some] show ?thesis
    by (auto simp: policy_def contains_def split: sum.splits)
qed

lemma episode_loop_table:
  "episode_loop max_steps (T, e, s, stp, score, fin) = Inr (T', e', score') \<Longrightarrow> T' = T"
proof (induction max_steps "(T, e, s, stp, score, fin)" arbitrary: T e s stp score fin
    rule: episode_loop.induct)
  case (1 max_steps T e s stp score fin)
  note unf = episode_loop.simps [of max_steps T e s stp score fin]
  show ?case
  proof (cases "\<not> fin \<and> stp < max_steps")
    case False
    with "1.prems" [unfolded unf] show ?thesis by simp
  next
    case True
    note body = "1.prems" [unfolded unf if_P [OF True]]
    from body obtain T1 a where p: "policy T s = Inr (T1, a)"
      by (cases "policy T s") auto
    from body p obtain e1 s1 r done1 info where st: "step a e = Inr (e1, (s1, r, done1, info))"
      by (cases "step a e") auto
    from body p st have
      "episode_loop max_steps (T1, e1, s1, stp + 1, (if map_of info ''ate'' = Some True then score + 1 else score), done1) = Inr (T', e', score')"
      by simp
    from "1.hyps" [OF True p refl st refl refl refl refl this] have "T' = T1" .
    with policy_table [OF p] show ?thesis by simp
  qed
qed

lemma episodes_loop_table:
  "episodes_loop k max_steps T e totals = Inr (T', e', totals') \<Longrightarrow> T' = T"
proof (induction k arbitrary: T e totals)
  case 0
  then show ?case by simp
next
  case (Suc k)
  from Suc.prems obtain e1 s where r: "reset e = Inr (e1, s)"
    by (cases "reset e") auto
  from Suc.prems r obtain T1 e2 score where
    l: "episode_loop max_steps (T, e1, s, 0, 0, False) = Inr (T1, e2, score)"
    by (cases "episode_loop max_steps (T, e1, s, 0, 0, False)") auto
  from Suc.prems r l have "episodes_loop k max_steps T1 e2 (totals @ [score]) = Inr (T', e', totals')"
    by simp
  from Suc.IH [OF this] episode_loop_table [OF l] show ?case by simp
qed

text \<open>
  Claim C6. When \<open>evaluate\<close> returns, the table is the table it was given: the same
  action count and the same keys with the same value vectors in the same order, so no key
  was created. For a state that is not a key of the table the action selected is the
  fixed action 1, and the table is left as it is.
\<close>

theorem evaluate_leaves_table:
  "(evaluate T count sz seed max_steps = Inr (T', st) \<longrightarrow> T' = T) \<and>
   (\<not> contains T s \<longrightarrow> policy T s = Inr (T, 1))"
proof -
  have "T' = T" if ev: "evaluate T count sz seed max_steps = Inr (T', st)"
  proof -
    from ev obtain T1 e1 totals where
      l: "episodes_loop (nat count) max_steps T (init_env sz seed) [] = Inr (T1, e1, totals)"
      by (cases "episodes_loop (nat count) max_steps T (init_env sz seed) []")
        (auto simp: evaluate_def Let_def)
    with ev have "T' = T1"
      by (auto simp: evaluate_def Let_def split: sum.splits)
    with episodes_loop_table [OF l] show ?thesis by simp
  qed
  with policy_absent [of T s] show ?thesis by blast
qed


lemma evaluate_table1:
  "evaluate table1 1 2 seed0 1 =
     Inr (table1, \<lparr>episodes = 1, grid = 2, mean_score = Fin 0, std_score = Fin 0,
                   max_score = 0, min_score = 0\<rparr>)"
  by (simp add: evaluate_def episode_loop.simps policy_def contains_def getitem_def np_argmax_def
      np_max_def max_positions_def enumerate_eq_zip table1_def np_mean_def np_std_def np_amax_def np_amin_def py_int_def
      eval_defs)

theorem evaluate_leaves_table_witness:
  "evaluate table1 1 2 seed0 1 =
     Inr (table1, \<lparr>episodes = 1, grid = 2, mean_score = Fin 0, std_score = Fin 0,
                   max_score = 0, min_score = 0\<rparr>) \<and>
   \<not> contains table1 (0, 0, 0, 0, 0, 0) \<and> policy table1 (0, 0, 0, 0, 0, 0) = Inr (table1, 1)"
proof -
  have c: "\<not> contains table1 (0, 0, 0, 0, 0, 0)" by (simp add: contains_def table1_def)
  from evaluate_leaves_table [of table1 1 2 seed0 1 table1 _ "(0, 0, 0, 0, 0, 0)"] evaluate_table1 c
  show ?thesis by simp
qed



section \<open>Properties of the Q-value table\<close>

subsection \<open>Table access\<close>

lemma update_fresh: "k \<notin> fst ` set al \<Longrightarrow> AList.update k v al = al @ [(k, v)]"
  by (induction al) auto

lemma wf_lookup: "wf_table T \<Longrightarrow> map_of (Q T) k = Some v \<Longrightarrow> int (length v) = actions T"
  by (auto simp: wf_table_def list_all_iff dest: map_of_SomeD)

lemma length_row: "wf_table T \<Longrightarrow> 0 \<le> actions T \<Longrightarrow> int (length (row T k)) = actions T"
  by (auto simp: row_def wf_lookup split: option.splits)

lemma getitem_lazy:
  assumes "0 \<le> actions T"
  shows "getitem T k = Inr (lazy T k, row T k)"
proof (cases "map_of (Q T) k")
  case None
  then have "k \<notin> fst ` set (Q T)" by (simp add: map_of_eq_None_iff)
  with None assms show ?thesis
    by (simp add: getitem_def lazy_def row_def np_zeros_def update_fresh)
next
  case (Some v)
  then show ?thesis by (simp add: getitem_def lazy_def row_def)
qed

lemma actions_lazy [simp]: "actions (lazy T k) = actions T"
  by (simp add: lazy_def split: option.splits)

lemma map_of_lazy: "map_of (Q (lazy T k)) = (map_of (Q T))(k \<mapsto> row T k)"
  by (auto simp: lazy_def row_def map_add_def fun_eq_iff split: option.splits)

lemma row_lazy [simp]: "row (lazy T k) k' = row T k'"
  by (simp add: row_def map_of_lazy split: option.splits)

lemma wf_lazy: "wf_table T \<Longrightarrow> 0 \<le> actions T \<Longrightarrow> wf_table (lazy T k)"
  by (auto simp: lazy_def wf_table_def map_of_eq_None_iff split: option.splits)

lemma np_max_Max: "q \<noteq> [] \<Longrightarrow> np_max q = Inr (Max (set q))"
  by (cases q) (simp_all add: np_max_def Max.set_eq_fold [symmetric])


subsection \<open>The update rule\<close>

lemma lazy_present: "map_of (Q T) k = Some v \<Longrightarrow> lazy T k = T"
  by (simp add: lazy_def)

lemma list_all_update:
  "list_all P al \<Longrightarrow> P (k, v) \<Longrightarrow> list_all P (AList.update k v al)"
  by (induction al) auto

lemma wf_store:
  assumes "wf_table T" "int (length v) = actions T"
  shows "wf_table (T\<lparr>Q := AList.update k v (Q T)\<rparr>)"
  using assms by (simp add: wf_table_def distinct_update list_all_update)

lemma py_index_nat: "0 \<le> i \<Longrightarrow> i < int (length xs) \<Longrightarrow> py_index xs i = Inr (xs ! nat i)"
  by (simp add: py_index_def norm_index_def)

lemma norm_index_nat: "0 \<le> i \<Longrightarrow> i < int len \<Longrightarrow> norm_index len i = Inr (nat i)"
  by (simp add: norm_index_def)

lemma update_result:
  assumes wf: "wf_table T" and a: "0 \<le> a" "a < actions T"
  shows "update T s a r s2 alpha gamma =
           Inr ((lazy (lazy T s) s2)\<lparr>Q := AList.update s
                  ((row T s)[nat a := row T s ! nat a
                      + alpha * (r + gamma * Max (set (row T s2)) - row T s ! nat a)])
                  (Q (lazy (lazy T s) s2))\<rparr>)"
proof -
  from a have nn: "0 \<le> actions T" by simp
  let ?T1 = "lazy T s" and ?T2 = "lazy (lazy T s) s2"
  have g1: "getitem T s = Inr (?T1, row T s)" by (rule getitem_lazy [OF nn])
  have len: "int (length (row T s)) = actions T" by (rule length_row [OF wf nn])
  have ix: "py_index (row T s) a = Inr (row T s ! nat a)"
    using a len by (simp add: py_index_nat)
  have g2: "getitem ?T1 s2 = Inr (?T2, row T s2)"
    using getitem_lazy [of ?T1 s2] nn by simp
  have "int (length (row T s2)) = actions T" by (rule length_row [OF wf nn])
  with a have "row T s2 \<noteq> []" by auto
  then have mx: "np_max (row T s2) = Inr (Max (set (row T s2)))" by (rule np_max_Max)
  have "map_of (Q ?T2) s = Some (row T s)"
    by (simp add: map_of_lazy)
  from lazy_present [OF this] have "lazy ?T2 s = ?T2" .
  then have g3: "getitem ?T2 s = Inr (?T2, row T s)"
    using getitem_lazy [of ?T2 s] nn by simp
  have nx: "norm_index (length (row T s)) a = Inr (nat a)"
    using a len by (simp add: norm_index_nat)
  show ?thesis
    by (simp add: update_def g1 ix g2 mx g3 nx Let_def)
qed

text \<open>
  Claim C4. For a well-formed table and an action a with 0 \<le> a < actions, \<open>update\<close>
  returns a table in which the vector of s is the old vector of s with position a set to
  old + alpha * (r + gamma * max of the vector of s2 - old), where old is the old value at
  position a and the vector of a key absent from the table is the all-zero vector of
  length actions, which is stored for s and for s2 before it is read. The vector of
  s2 (if s2 differs from s) is otherwise as it was, and no other key changes.
\<close>

theorem update_rule:
  assumes wf: "wf_table T" and a: "0 \<le> a" "a < actions T"
  shows "\<exists>T'. update T s a r s2 alpha gamma = Inr T' \<and> actions T' = actions T \<and> wf_table T' \<and>
           map_of (Q T') s =
             Some ((row T s)[nat a := row T s ! nat a
                      + alpha * (r + gamma * Max (set (row T s2)) - row T s ! nat a)]) \<and>
           (s2 \<noteq> s \<longrightarrow> map_of (Q T') s2 = Some (row T s2)) \<and>
           (\<forall>k. k \<noteq> s \<and> k \<noteq> s2 \<longrightarrow> map_of (Q T') k = map_of (Q T) k)"
proof -
  from a have nn: "0 \<le> actions T" by simp
  let ?T2 = "lazy (lazy T s) s2"
  let ?new = "(row T s)[nat a := row T s ! nat a
                      + alpha * (r + gamma * Max (set (row T s2)) - row T s ! nat a)]"
  let ?T' = "?T2\<lparr>Q := AList.update s ?new (Q ?T2)\<rparr>"
  have up: "update T s a r s2 alpha gamma = Inr ?T'"
    by (rule update_result [OF wf a])
  have wf2: "wf_table ?T2"
    using wf_lazy [OF wf_lazy [OF wf nn, of s], of s2] nn by simp
  have "int (length ?new) = actions ?T2"
    using length_row [OF wf nn, of s] by simp
  from wf_store [OF wf2 this] have wf': "wf_table ?T'" .
  have m: "map_of (AList.update s ?new (Q ?T2))
             = (map_of (Q T))(s \<mapsto> row T s, s2 \<mapsto> row T s2, s \<mapsto> ?new)"
    by (simp add: update_conv' map_of_lazy)
  have "actions ?T' = actions T" by simp
  moreover have "map_of (Q ?T') s = Some ?new" by (simp add: m)
  moreover have "s2 \<noteq> s \<longrightarrow> map_of (Q ?T') s2 = Some (row T s2)" by (simp add: m)
  moreover have "\<forall>k. k \<noteq> s \<and> k \<noteq> s2 \<longrightarrow> map_of (Q ?T') k = map_of (Q T) k" by (simp add: m)
  ultimately show ?thesis using up wf' by blast
qed

lemma wf_table2: "wf_table table2"
  by (simp add: wf_table_def table2_def)

theorem update_rule_witness:
  "wf_table table2 \<and> (0::int) \<le> 1 \<and> 1 < actions table2 \<and>
   (\<exists>T'. update table2 ''k'' 1 1 ''tie'' (1/2) (1/2) = Inr T' \<and> actions T' = 3 \<and>
      map_of (Q T') ''k'' = Some [1, 1, -1] \<and> map_of (Q T') ''tie'' = Some [2, 0, 2])"
proof -
  have a: "(0::int) \<le> 1" "1 < actions table2" by (simp_all add: table2_def)
  have r: "row table2 ''k'' = [1, 0, -1]" "row table2 ''tie'' = [2, 0, 2]"
    by (simp_all add: row_def table2_def)
  have t: "actions table2 = 3" by (simp add: table2_def)
  from update_rule [OF wf_table2 a, of "''k''" 1 "''tie''" "1/2" "1/2"]
  show ?thesis using wf_table2 a unfolding r t by auto
qed

subsection \<open>Greedy action selection\<close>

lemma max_positions_set: "set (max_positions q m) = {i. i < length q \<and> q ! i = m}"
  by (auto simp: max_positions_def in_set_enumerate_eq image_iff)

lemma max_positions_distinct: "distinct (max_positions q m)"
  unfolding max_positions_def by (rule distinct_map_filter) simp

lemma maximizers_positions: "maximizers q = set (max_positions q (Max (set q)))"
  by (simp add: maximizers_def max_positions_set)

lemma max_positions_nonempty:
  assumes "q \<noteq> []"
  shows "max_positions q (Max (set q)) \<noteq> []"
proof -
  from assms have "Max (set q) \<in> set q" by (intro Max_in) simp_all
  then obtain i where "i < length q" "q ! i = Max (set q)"
    by (auto simp: in_set_conv_nth)
  then have "i \<in> set (max_positions q (Max (set q)))" by (simp add: max_positions_set)
  then show ?thesis by auto
qed

lemma act_exploit:
  assumes wf: "wf_table T" and pos: "0 < actions T" and u: "0 \<le> u"
  shows "act T st 0 u r =
           Inr (lazy T st, int (max_positions (row T st) (Max (set (row T st)))
                                  ! (r mod length (max_positions (row T st) (Max (set (row T st)))))))"
proof -
  from pos have nn: "0 \<le> actions T" by simp
  have "int (length (row T st)) = actions T" by (rule length_row [OF wf nn])
  with pos have ne: "row T st \<noteq> []" by auto
  note idx = max_positions_nonempty [OF ne]
  from u show ?thesis
    by (simp add: act_def getitem_lazy [OF nn] np_max_Max [OF ne] choice_def idx Let_def)
qed

text \<open>
  Claim C5. With epsilon 0 and a draw u of \<^verbatim>\<open>random.random()\<close> in [0, 1), \<open>act\<close> does
  not explore: it stores the all-zero vector for an unseen key and returns a position at
  which the key's vector is maximal. As the draw r of the choice ranges over the numbers
  below the count of maximizers, the result ranges one-to-one over all maximizers, so a
  uniform draw gives a uniform choice among all of them. On a key with the vector
  [1, 0, -1] the result is action 0 for every draw.
\<close>

theorem act_greedy:
  assumes wf: "wf_table T" and pos: "0 < actions T" and u: "0 \<le> u"
  shows "(\<exists>i \<in> maximizers (row T st). act T st 0 u r = Inr (lazy T st, int i)) \<and>
         bij_betw (\<lambda>r. act T st 0 u r) {..<card (maximizers (row T st))}
           ((\<lambda>i. Inr (lazy T st, int i)) ` maximizers (row T st)) \<and>
         (row T st = [1, 0, -1] \<longrightarrow> act T st 0 u r = Inr (lazy T st, 0))"
proof -
  let ?q = "row T st"
  let ?idxs = "max_positions ?q (Max (set ?q))"
  let ?wrap = "\<lambda>i. (Inr (lazy T st, int i) :: error + 'a QTable \<times> int)"
  from pos have nn: "0 \<le> actions T" by simp
  have "int (length ?q) = actions T" by (rule length_row [OF wf nn])
  with pos have ne: "?q \<noteq> []" by auto
  have idx: "?idxs \<noteq> []" by (rule max_positions_nonempty [OF ne])
  have dist: "distinct ?idxs" by (rule max_positions_distinct)
  have M: "maximizers ?q = set ?idxs" by (rule maximizers_positions)
  have cardM: "card (maximizers ?q) = length ?idxs"
    using dist by (simp add: M distinct_card)
  have ex: "act T st 0 u r = ?wrap (?idxs ! (r mod length ?idxs))" for r
    by (rule act_exploit [OF wf pos u])
  have mem: "?idxs ! (r mod length ?idxs) \<in> maximizers ?q"
    using idx by (simp add: M)
  have first: "\<exists>i \<in> maximizers ?q. act T st 0 u r = ?wrap i"
    using ex [of r] mem by blast
  have "bij_betw ((!) ?idxs) {..<length ?idxs} (set ?idxs)"
    using dist by (intro bij_betw_nth) simp_all
  moreover have "inj_on ?wrap (set ?idxs)" by (simp add: inj_on_def)
  ultimately have "bij_betw (?wrap \<circ> (!) ?idxs) {..<length ?idxs} (?wrap ` set ?idxs)"
    by (intro bij_betw_trans [of "(!) ?idxs" _ "set ?idxs"]) (simp_all add: inj_on_imp_bij_betw)
  moreover have "act T st 0 u r = (?wrap \<circ> (!) ?idxs) r" if "r \<in> {..<length ?idxs}" for r
    using that ex [of r] by simp
  ultimately have "bij_betw (\<lambda>r. act T st 0 u r) {..<length ?idxs} (?wrap ` set ?idxs)"
    by (subst bij_betw_cong [of _ _ "?wrap \<circ> (!) ?idxs"]) simp_all
  then have second: "bij_betw (\<lambda>r. act T st 0 u r) {..<card (maximizers ?q)} (?wrap ` maximizers ?q)"
    by (simp only: cardM) (simp only: M)
  have third: "act T st 0 u r = ?wrap 0" if q: "?q = [1, 0, -1]"
  proof -
    from first obtain i where i: "i \<in> maximizers ?q" "act T st 0 u r = ?wrap i" by blast
    from i(1) q have "i < 3" "[1, 0, -1 :: real] ! i = 1" by (simp_all add: maximizers_def)
    then have "i = 0" by (cases i) (auto simp: nth_Cons split: nat.splits)
    with i(2) show ?thesis by simp
  qed
  from first second third show ?thesis by simp
qed

theorem act_greedy_witness:
  "wf_table table2 \<and> 0 < actions table2 \<and> (0::real) \<le> 1/2 \<and>
   act table2 ''k'' 0 (1/2) 7 = Inr (table2, 0) \<and>
   maximizers (row table2 ''tie'') = {0, 2} \<and>
   act table2 ''tie'' 0 (1/2) 0 = Inr (table2, 0) \<and> act table2 ''tie'' 0 (1/2) 1 = Inr (table2, 2)"
proof -
  have a: "0 < actions table2" "(0::real) \<le> 1/2" by (simp_all add: table2_def)
  have r: "row table2 ''k'' = [1, 0, -1]" by (simp add: row_def table2_def)
  have l: "lazy table2 ''k'' = table2" by (simp add: lazy_def table2_def)
  have m: "maximizers (row table2 ''tie'') = {0, 2}"
    by (simp add: maximizers_positions row_def table2_def max_positions_def enumerate_eq_zip
        eval_nat_numeral)
  have t: "act table2 ''tie'' 0 (1/2) 0 = Inr (table2, 0)" "act table2 ''tie'' 0 (1/2) 1 = Inr (table2, 2)"
    by (simp_all add: act_def getitem_def np_max_def max_positions_def enumerate_eq_zip choice_def table2_def eval_nat_numeral)
  from act_greedy [OF wf_table2 a, of "''k''" 7] wf_table2 a m t show ?thesis
    unfolding r l by simp
qed

subsection \<open>Persistence\<close>









end
